theory Spec2Isabelle
  imports Complex_Main "HOL-Library.AList" "HOL-Library.Multiset"
begin

section \<open>JavaScript values used by the program\<close>

text \<open>
  Cards, ranks, suits and category names are JavaScript strings, modelled as \<open>string\<close>.
  A read that yields \<open>undefined\<close> in JavaScript yields \<open>None\<close> here.
\<close>

text \<open>\<open>s[i]\<close> on a string: the one-character string at index \<open>i\<close>, or \<open>undefined\<close>.\<close>

definition charAt :: "string \<Rightarrow> nat \<Rightarrow> string option" where
  "charAt s i = (if i < length s then Some [s ! i] else None)"

text \<open>\<open>xs[i]\<close> on an array: the element at index \<open>i\<close>, or \<open>undefined\<close>.\<close>

definition elemAt :: "'a list \<Rightarrow> nat \<Rightarrow> 'a option" where
  "elemAt xs i = (if i < length xs then Some (xs ! i) else None)"

text \<open>\<open>xs.indexOf(x)\<close>: the first index holding \<open>x\<close>, or \<open>-1\<close>.\<close>

fun indexOf :: "'a list \<Rightarrow> 'a \<Rightarrow> int" where
  "indexOf [] x = - 1"
| "indexOf (y # ys) x =
     (if x = y then 0 else (let i = indexOf ys x in if i < 0 then - 1 else i + 1))"

text \<open>\<open>xs.flatMap(f)\<close>.\<close>

definition flatMap :: "('a \<Rightarrow> 'b list) \<Rightarrow> 'a list \<Rightarrow> 'b list" where
  "flatMap f xs = concat (map f xs)"

text \<open>\<open>xs.includes(x)\<close>, where \<open>x\<close> may be \<open>undefined\<close>.\<close>

definition js_includes :: "'a list \<Rightarrow> 'a option \<Rightarrow> bool" where
  "js_includes xs x = (case x of None \<Rightarrow> False | Some y \<Rightarrow> y \<in> set xs)"

subsection \<open>Objects\<close>

text \<open>
  An object is the list of its own properties in creation order. A property read is
  \<open>map_of\<close>, a property write is \<open>AList.update\<close> (in place for an existing key, at the
  end for a new one). \<open>Object.keys\<close> and \<open>Object.values\<close> enumerate the keys that are
  array indices (decimal numerals below \<open>2^32 - 1\<close>) first, in ascending numeric order,
  and then the other keys in creation order.
\<close>

type_synonym 'v object = "(string \<times> 'v) list"

definition is_digit :: "char \<Rightarrow> bool" where
  "is_digit c = (48 \<le> (of_char c :: nat) \<and> (of_char c :: nat) \<le> 57)"

definition decimal :: "string \<Rightarrow> int" where
  "decimal k = fold (\<lambda>c n. 10 * n + (of_char c - 48)) k 0"

definition is_array_index :: "string \<Rightarrow> bool" where
  "is_array_index k =
     (k \<noteq> [] \<and> list_all is_digit k \<and> (length k = 1 \<or> hd k \<noteq> CHR ''0'')
      \<and> decimal k < 4294967295)"

definition ownEntries :: "'v object \<Rightarrow> (string \<times> 'v) list" where
  "ownEntries obj =
     sort_key (\<lambda>p. decimal (fst p)) (filter (\<lambda>p. is_array_index (fst p)) obj)
     @ filter (\<lambda>p. \<not> is_array_index (fst p)) obj"

definition Object_keys :: "'v object \<Rightarrow> string list" where
  "Object_keys obj = map fst (ownEntries obj)"

definition Object_values :: "'v object \<Rightarrow> 'v list" where
  "Object_values obj = map snd (ownEntries obj)"

text \<open>\<open>Object.fromEntries\<close>: the entries are written one after the other.\<close>

definition fromEntries :: "(string \<times> 'v) list \<Rightarrow> 'v object" where
  "fromEntries es = fold (\<lambda>(k, v) obj. AList.update k v obj) es []"

text \<open>The property key of a value used as a key: \<open>undefined\<close> becomes the string
  \<open>"undefined"\<close>.\<close>

definition propKey :: "string option \<Rightarrow> string" where
  "propKey r = (case r of None \<Rightarrow> ''undefined'' | Some s \<Rightarrow> s)"

subsection \<open>Numbers\<close>

text \<open>
  The counters and the payout sum are integers far below \<open>2^53\<close>, on which the
  arithmetic of JavaScript Numbers is exact; they are modelled as \<open>int\<close>. A Number that
  may be \<open>NaN\<close> (or a value that may be \<open>undefined\<close>, which arithmetic turns into
  \<open>NaN\<close>) is an \<open>option\<close>, \<open>None\<close> standing for \<open>NaN\<close> or \<open>undefined\<close>.
  The operator \<open>/\<close> is IEEE-754 double division; the model takes it as the parameter
  \<open>fdiv\<close>, and \<open>None\<close> also stands for the non-finite quotient by zero.
\<close>

text \<open>\<open>v || 0\<close> for a counter: \<open>undefined\<close> and \<open>0\<close> give \<open>0\<close>.\<close>

definition or_zero :: "int option \<Rightarrow> int" where
  "or_zero v = (case v of None \<Rightarrow> 0 | Some n \<Rightarrow> if n = 0 then 0 else n)"

definition num_add :: "int option \<Rightarrow> int option \<Rightarrow> int option" where
  "num_add a b = (case a of None \<Rightarrow> None | Some x \<Rightarrow> (case b of None \<Rightarrow> None | Some y \<Rightarrow> Some (x + y)))"

definition num_get :: "int option object \<Rightarrow> string \<Rightarrow> int option" where
  "num_get obj k = (case map_of obj k of None \<Rightarrow> None | Some v \<Rightarrow> v)"

definition num_div :: "(real \<Rightarrow> real \<Rightarrow> real) \<Rightarrow> int option \<Rightarrow> nat \<Rightarrow> real option" where
  "num_div fdiv a n =
     (case a of None \<Rightarrow> None
      | Some x \<Rightarrow> if n = 0 then None else Some (fdiv (real_of_int x) (real n)))"

section \<open>Module constants\<close>

definition RANKS :: "string list" where
  "RANKS = [''2'', ''3'', ''4'', ''5'', (''6'' :: string), ''7'', ''8'', ''9'', ''T'', ''J'', ''Q'',
            ''K'', ''A'']"

definition SUITS :: "string list" where
  "SUITS = [''c'', ''d'', ''h'', ''s'']"

definition DECK :: "string list" where
  "DECK = flatMap (\<lambda>r. map (\<lambda>s. r @ s) SUITS) RANKS"

definition PAYTABLE :: "int object" where
  "PAYTABLE =
     [(''royal_flush'', 1000),
      (''straight_flush'', 200),
      (''four_kind'', 50),
      (''full_house'', 11),
      (''flush'', 8),
      (''straight'', 5),
      (''three_kind'', 3),
      (''two_pair'', 2),
      (''pair_10_or_better'', 1),
      (''nothing'', - 1)]"

definition CATEGORIES :: "string list" where
  "CATEGORIES =
     [''royal_flush'',
      ''straight_flush'',
      ''four_kind'',
      ''full_house'',
      ''flush'',
      ''straight'',
      ''three_kind'',
      ''two_pair'',
      ''pair_10_or_better'',
      ''nothing'']"

definition rankIndex :: "string option \<Rightarrow> int" where
  "rankIndex r = (case r of None \<Rightarrow> - 1 | Some s \<Rightarrow> indexOf RANKS s)"

section \<open>The hand classifier\<close>

text \<open>The local constants of \<open>classify5\<close>, one definition each.\<close>

definition ranks_of :: "string list \<Rightarrow> string option list" where
  "ranks_of cards = map (\<lambda>c. charAt c 0) cards"

definition suits_of :: "string list \<Rightarrow> string option list" where
  "suits_of cards = map (\<lambda>c. charAt c 1) cards"

definition counts_of :: "string option list \<Rightarrow> int object" where
  "counts_of ranks =
     fold (\<lambda>r counts. AList.update (propKey r) (or_zero (map_of counts (propKey r)) + 1) counts)
       ranks []"

definition freqs_of :: "int object \<Rightarrow> int list" where
  "freqs_of counts = rev (sort (Object_values counts))"

definition isFlush_of :: "string option list \<Rightarrow> bool" where
  "isFlush_of suits = (card (set suits) = 1)"

definition vals_of :: "string option list \<Rightarrow> int list" where
  "vals_of ranks = sort (map rankIndex ranks)"

definition isStraight_of :: "int list \<Rightarrow> bool" where
  "isStraight_of vals =
     (if length vals = 5 \<and> vals ! 0 = 0 \<and> vals ! 1 = 1 \<and> vals ! 2 = 2 \<and> vals ! 3 = 3
         \<and> vals ! 4 = 12
      then True
      else if length vals = 5 \<and> vals ! 4 - vals ! 0 = 4 \<and> card (set vals) = 5
      then True
      else False)"

definition classify5 :: "string list \<Rightarrow> string" where
  "classify5 cards =
     (let ranks = ranks_of cards;
          suits = suits_of cards;
          counts = counts_of ranks;
          freqs = freqs_of counts;
          isFlush = isFlush_of suits;
          vals = vals_of ranks;
          isStraight = isStraight_of vals
      in
        if isStraight \<and> isFlush then
          (if card (set ranks) = 5 \<and> Some ''T'' \<in> set ranks \<and> Some ''J'' \<in> set ranks
              \<and> Some ''Q'' \<in> set ranks \<and> Some ''K'' \<in> set ranks \<and> Some ''A'' \<in> set ranks
           then ''royal_flush''
           else ''straight_flush'')
        else if elemAt freqs 0 = Some 4 then ''four_kind''
        else if elemAt freqs 0 = Some 3 \<and> elemAt freqs 1 = Some 2 then ''full_house''
        else if isFlush then ''flush''
        else if isStraight then ''straight''
        else if elemAt freqs 0 = Some 3 then ''three_kind''
        else if elemAt freqs 0 = Some 2 \<and> elemAt freqs 1 = Some 2 then ''two_pair''
        else if elemAt freqs 0 = Some 2 then
          (let pairRank = List.find (\<lambda>k. map_of counts k = Some 2) (Object_keys counts)
           in if js_includes [''T'', ''J'', ''Q'', ''K'', ''A''] pairRank
              then ''pair_10_or_better''
              else ''nothing'')
        else ''nothing'')"

section \<open>The enumeration engine\<close>

record row =
  finalCard :: string
  cat :: string
  payout :: "int option"

record outcome =
  ev :: "real option"
  probs :: "real option object"
  counts :: "int option object"
  total_n :: nat
  breakdown :: "row list"

datatype result = Error string | Outcome outcome

text \<open>The state of the component: the four selected cards (the empty string when
  nothing is selected) and the displayed result (\<open>null\<close> at the start).\<close>

record app =
  cardA :: string
  cardB :: string
  cardC :: string
  board :: string
  result :: "result option"

text \<open>One iteration of the loop over the remaining cards, on the loop's variables
  \<open>counts\<close>, \<open>evSum\<close> and \<open>breakdown\<close>.\<close>

definition loop_body ::
  "app \<Rightarrow> string \<Rightarrow> int option object \<times> int option \<times> row list
     \<Rightarrow> int option object \<times> int option \<times> row list" where
  "loop_body s fc st =
     (case st of (cnts, evSum, rows) \<Rightarrow>
        (let final5 = [cardA s, cardB s, cardC s, board s, fc];
             ct = classify5 final5;
             cnts' = AList.update ct (num_add (num_get cnts ct) (Some 1)) cnts;
             pay = map_of PAYTABLE ct;
             evSum' = num_add evSum pay
         in (cnts', evSum', rows @ [\<lparr>finalCard = fc, cat = ct, payout = pay\<rparr>])))"

definition computeEV :: "(real \<Rightarrow> real \<Rightarrow> real) \<Rightarrow> app \<Rightarrow> app" where
  "computeEV fdiv s =
     (if cardA s = [] \<or> cardB s = [] \<or> cardC s = [] \<or> board s = [] then
        s\<lparr>result := Some (Error ''Please select all 3 hole cards and the shown community card.'')\<rparr>
      else
        (let known = set [cardA s, cardB s, cardC s, board s] in
           if card known < 4 then
             s\<lparr>result := Some (Error ''Duplicate card detected. Please choose distinct cards.'')\<rparr>
           else
             (let remaining = filter (\<lambda>c. c \<notin> known) DECK;
                  st = fold (loop_body s) remaining
                         (fromEntries (map (\<lambda>c. (c, Some 0)) CATEGORIES), Some 0, []);
                  tot = length remaining;
                  e = num_div fdiv (fst (snd st)) tot;
                  ps = fromEntries (map (\<lambda>c. (c, num_div fdiv (num_get (fst st) c) tot)) CATEGORIES)
              in s\<lparr>result := Some (Outcome \<lparr>ev = e, probs = ps, counts = fst st, total_n = tot,
                                               breakdown = snd (snd st)\<rparr>)\<rparr>)))"

section \<open>Notions used in the statements\<close>

text \<open>
  The following definitions are not part of the program. They name what the statements
  below talk about: a valid selection (four pairwise distinct cards of the deck), the
  candidate pool, the five-card hand completed by a candidate, the record the loop
  appends for a candidate, the number of candidates of a list that fall into a
  category, and the payout the paytable holds for a category name.
\<close>

definition payout_of :: "string \<Rightarrow> int" where
  "payout_of c = (case map_of PAYTABLE c of None \<Rightarrow> 0 | Some p \<Rightarrow> p)"

definition final5_of :: "app \<Rightarrow> string \<Rightarrow> string list" where
  "final5_of s fc = [cardA s, cardB s, cardC s, board s, fc]"

definition row_of :: "app \<Rightarrow> string \<Rightarrow> row" where
  "row_of s fc = \<lparr>finalCard = fc, cat = classify5 (final5_of s fc),
                        payout = map_of PAYTABLE (classify5 (final5_of s fc))\<rparr>"

definition tally :: "app \<Rightarrow> string list \<Rightarrow> string \<Rightarrow> int" where
  "tally s cs c = int (length (filter (\<lambda>fc. classify5 (final5_of s fc) = c) cs))"

definition remaining_of :: "app \<Rightarrow> string list" where
  "remaining_of s = filter (\<lambda>c. c \<notin> set [cardA s, cardB s, cardC s, board s]) DECK"

definition valid_selection :: "app \<Rightarrow> bool" where
  "valid_selection s =
     (cardA s \<in> set DECK \<and> cardB s \<in> set DECK \<and> cardC s \<in> set DECK \<and> board s \<in> set DECK
      \<and> distinct [cardA s, cardB s, cardC s, board s])"

text \<open>
  All five suits are identical; and the five rank values are consecutive or form the
  wheel (the value set is that of A, 2, 3, 4, 5).
\<close>

definition same_suit :: "string list \<Rightarrow> bool" where
  "same_suit cards = (\<forall>x\<in>set (suits_of cards). \<forall>y\<in>set (suits_of cards). x = y)"

definition straight_hand :: "string list \<Rightarrow> bool" where
  "straight_hand cards =
     (length cards = 5 \<and>
      (set (map rankIndex (ranks_of cards)) = {0, 1, 2, 3, 12}
       \<or> (\<exists>lo\<in>set (map rankIndex (ranks_of cards)).
             set (map rankIndex (ranks_of cards)) = {lo .. lo + 4})))"

section \<open>Auxiliary facts\<close>

subsection \<open>The deck and the selection\<close>

lemma DECK_list:
  "DECK = [''2c'', ''2d'', ''2h'', ''2s'', ''3c'', ''3d'', ''3h'', ''3s'',
           ''4c'', ''4d'', ''4h'', ''4s'', ''5c'', ''5d'', ''5h'', ''5s'',
           ''6c'', ''6d'', ''6h'', ''6s'', ''7c'', ''7d'', ''7h'', ''7s'',
           ''8c'', ''8d'', ''8h'', ''8s'', ''9c'', ''9d'', ''9h'', ''9s'',
           ''Tc'', ''Td'', ''Th'', ''Ts'', ''Jc'', ''Jd'', ''Jh'', ''Js'',
           ''Qc'', ''Qd'', ''Qh'', ''Qs'', ''Kc'', ''Kd'', ''Kh'', ''Ks'',
           ''Ac'', ''Ad'', ''Ah'', ''As'']"
  by (simp add: DECK_def flatMap_def RANKS_def SUITS_def)

lemma length_DECK: "length DECK = 52"
  by (simp add: DECK_list)

lemma distinct_DECK: "distinct DECK"
  by (simp add: DECK_list)

lemma length_remaining:
  assumes "distinct xs" "K \<subseteq> set xs" "finite K"
  shows "length (filter (\<lambda>c. c \<notin> K) xs) = length xs - card K"
proof -
  have "length (filter (\<lambda>c. c \<notin> K) xs) = card ({c. c \<notin> K} \<inter> set xs)"
    using assms(1) by (rule distinct_length_filter)
  also have "{c. c \<notin> K} \<inter> set xs = set xs - K" by auto
  also have "card (set xs - K) = card (set xs) - card K"
    using assms(2,3) by (simp add: card_Diff_subset)
  also have "card (set xs) = length xs" using assms(1) by (rule distinct_card)
  finally show ?thesis .
qed

lemma card_lt_4: "card (set [a, b, c, d]) < 4 \<longleftrightarrow> \<not> distinct [a, b, c, d]"
proof
  assume lt: "card (set [a, b, c, d]) < 4"
  show "\<not> distinct [a, b, c, d]"
  proof
    assume "distinct [a, b, c, d]"
    then have "card (set [a, b, c, d]) = length [a, b, c, d]" by (rule distinct_card)
    with lt show False by simp
  qed
next
  assume "\<not> distinct [a, b, c, d]"
  then have "card (set [a, b, c, d]) \<noteq> length [a, b, c, d]" using card_distinct by blast
  moreover have "card (set [a, b, c, d]) \<le> length [a, b, c, d]" by (rule card_length)
  ultimately show "card (set [a, b, c, d]) < 4" by simp
qed

lemma classify5_in: "classify5 cards \<in> set CATEGORIES"
  unfolding classify5_def CATEGORIES_def Let_def by simp

lemma update_fresh: "k \<notin> fst ` set al \<Longrightarrow> AList.update k v al = al @ [(k, v)]"
  by (induction al) auto

lemma update_tabulate:
  "distinct ks \<Longrightarrow> k \<in> set ks \<Longrightarrow> AList.update k v (map (\<lambda>c. (c, g c)) ks) = map (\<lambda>c. (c, (g(k := v)) c)) ks"
  by (induction ks) auto

lemma map_of_tabulate: "k \<in> set ks \<Longrightarrow> map_of (map (\<lambda>c. (c, g c)) ks) k = Some (g k)"
  by (induction ks) auto

lemma fromEntries_snoc: "fromEntries (es @ [(k, v)]) = AList.update k v (fromEntries es)"
  by (simp add: fromEntries_def)

lemma fromEntries_tabulate:
  "distinct ks \<Longrightarrow> fromEntries (map (\<lambda>c. (c, g c)) ks) = map (\<lambda>c. (c, g c)) ks"
proof (induction ks rule: rev_induct)
  case Nil
  show ?case by (simp add: fromEntries_def)
next
  case (snoc k ks)
  then have "fromEntries (map (\<lambda>c. (c, g c)) ks) = map (\<lambda>c. (c, g c)) ks" by simp
  moreover have "k \<notin> fst ` set (map (\<lambda>c. (c, g c)) ks)" using snoc.prems by force
  ultimately show ?case
    by (simp add: fromEntries_snoc update_fresh)
qed

lemma distinct_CATEGORIES: "distinct CATEGORIES"
  by (simp add: CATEGORIES_def)

lemma PAYTABLE_keys: "map fst PAYTABLE = CATEGORIES"
  by (simp add: PAYTABLE_def CATEGORIES_def)

lemma PAYTABLE_tabulate: "PAYTABLE = map (\<lambda>c. (c, payout_of c)) CATEGORIES"
  by (simp add: PAYTABLE_def CATEGORIES_def payout_of_def)

lemma PAYTABLE_lookup: "c \<in> set CATEGORIES \<Longrightarrow> map_of PAYTABLE c = Some (payout_of c)"
  by (subst PAYTABLE_tabulate) (rule map_of_tabulate)

lemma loop_body_step:
  "loop_body s fc (map (\<lambda>c. (c, Some (f c))) CATEGORIES, Some e, rows) =
     (map (\<lambda>c. (c, Some ((f(classify5 (final5_of s fc) := f (classify5 (final5_of s fc)) + 1)) c))) CATEGORIES,
      Some (e + payout_of (classify5 (final5_of s fc))),
      rows @ [row_of s fc])"
proof -
  let ?ct = "classify5 (final5_of s fc)"
  have in_cat: "?ct \<in> set CATEGORIES" by (rule classify5_in)
  have get: "num_get (map (\<lambda>c. (c, Some (f c))) CATEGORIES) ?ct = Some (f ?ct)"
    using map_of_tabulate [OF in_cat, of "\<lambda>c. Some (f c)"] by (simp add: num_get_def)
  have upd: "AList.update ?ct (Some (f ?ct + 1)) (map (\<lambda>c. (c, Some (f c))) CATEGORIES)
      = map (\<lambda>c. (c, Some ((f(?ct := f ?ct + 1)) c))) CATEGORIES"
    using update_tabulate [OF distinct_CATEGORIES in_cat, of "Some (f ?ct + 1)" "\<lambda>c. Some (f c)"]
    by (simp add: fun_upd_def cong: map_cong)
  show ?thesis
    unfolding loop_body_def
    by (simp add: Let_def final5_of_def [symmetric] get upd num_add_def
        PAYTABLE_lookup [OF in_cat] row_of_def)
qed

lemma fold_loop_body:
  "fold (loop_body s) cs (map (\<lambda>c. (c, Some (f c))) CATEGORIES, Some e, rows) =
     (map (\<lambda>c. (c, Some (f c + tally s cs c))) CATEGORIES,
      Some (e + sum_list (map (\<lambda>fc. payout_of (classify5 (final5_of s fc))) cs)),
      rows @ map (row_of s) cs)"
proof (induction cs arbitrary: f e rows)
  case Nil
  show ?case by (simp add: tally_def)
next
  case (Cons fc cs)
  show ?case
    by (simp add: loop_body_step Cons.IH tally_def add.assoc)
qed

lemma sum_list_indicator:
  "distinct ks \<Longrightarrow> a \<in> set ks \<Longrightarrow>
     (\<Sum>k\<leftarrow>ks. (if a = k then w k else 0)) = (w a :: int)"
proof (induction ks)
  case Nil
  then show ?case by simp
next
  case (Cons k ks)
  show ?case
  proof (cases "a = k")
    case True
    with Cons.prems have "\<forall>x\<in>set ks. a \<noteq> x" by auto
    then have "(\<Sum>k\<leftarrow>ks. (if a = k then w k else 0)) = 0"
      by (induction ks) auto
    with True show ?thesis by simp
  next
    case False
    with Cons show ?thesis by simp
  qed
qed

lemma tally_Cons:
  "tally s (fc # cs) c = (if classify5 (final5_of s fc) = c then 1 else 0) + tally s cs c"
  by (simp add: tally_def)

lemma sum_tally_weighted:
  "(\<Sum>c\<leftarrow>CATEGORIES. tally s cs c * w c)
     = sum_list (map (\<lambda>fc. w (classify5 (final5_of s fc))) cs)"
proof (induction cs)
  case Nil
  show ?case by (simp add: tally_def)
next
  case (Cons fc cs)
  have "(\<Sum>c\<leftarrow>CATEGORIES. tally s (fc # cs) c * w c)
      = (\<Sum>c\<leftarrow>CATEGORIES. (if classify5 (final5_of s fc) = c then w c else 0) + tally s cs c * w c)"
    by (rule arg_cong [where f = sum_list], rule map_cong) (auto simp add: tally_Cons algebra_simps)
  also have "\<dots> = (\<Sum>c\<leftarrow>CATEGORIES. (if classify5 (final5_of s fc) = c then w c else 0))
      + (\<Sum>c\<leftarrow>CATEGORIES. tally s cs c * w c)"
    by (simp add: sum_list_addf)
  also have "\<dots> = w (classify5 (final5_of s fc)) + (\<Sum>c\<leftarrow>CATEGORIES. tally s cs c * w c)"
    by (simp add: sum_list_indicator [OF distinct_CATEGORIES classify5_in])
  finally show ?case by (simp add: Cons.IH)
qed

lemma sum_tally: "(\<Sum>c\<leftarrow>CATEGORIES. tally s cs c) = int (length cs)"
  using sum_tally_weighted [of s cs "\<lambda>_. 1"] by (simp add: sum_list_triv)

lemma DECK_nonempty: "c \<in> set DECK \<Longrightarrow> c \<noteq> []"
  by (auto simp add: DECK_list)

lemma length_remaining_of: "valid_selection s \<Longrightarrow> length (remaining_of s) = 48"
  unfolding remaining_of_def valid_selection_def
  using length_remaining [OF distinct_DECK, of "set [cardA s, cardB s, cardC s, board s]"]
  by (simp add: length_DECK)

lemma computeEV_valid:
  assumes "valid_selection s"
  shows "computeEV fdiv s =
    s\<lparr>result := Some (Outcome
      \<lparr>ev = Some (fdiv (real_of_int (\<Sum>c\<leftarrow>CATEGORIES. tally s (remaining_of s) c * payout_of c)) (real 48)),
       probs = map (\<lambda>c. (c, Some (fdiv (real_of_int (tally s (remaining_of s) c)) (real 48)))) CATEGORIES,
       counts = map (\<lambda>c. (c, Some (tally s (remaining_of s) c))) CATEGORIES,
       total_n = 48,
       breakdown = map (row_of s) (remaining_of s)\<rparr>)\<rparr>"
proof -
  have ne: "cardA s \<noteq> []" "cardB s \<noteq> []" "cardC s \<noteq> []" "board s \<noteq> []"
    using assms by (simp_all add: valid_selection_def DECK_nonempty)
  have dist: "\<not> card (set [cardA s, cardB s, cardC s, board s]) < 4"
    using assms unfolding card_lt_4 valid_selection_def by simp
  have init: "fromEntries (map (\<lambda>c. (c, Some (0::int))) CATEGORIES) = map (\<lambda>c. (c, Some 0)) CATEGORIES"
    by (rule fromEntries_tabulate [OF distinct_CATEGORIES])
  have loop: "fold (loop_body s) (remaining_of s) (map (\<lambda>c. (c, Some 0)) CATEGORIES, Some 0, []) =
     (map (\<lambda>c. (c, Some (tally s (remaining_of s) c))) CATEGORIES,
      Some (\<Sum>c\<leftarrow>CATEGORIES. tally s (remaining_of s) c * payout_of c),
      map (row_of s) (remaining_of s))"
    using fold_loop_body [of s "remaining_of s" "\<lambda>_. 0" 0 "[]"]
    by (simp add: sum_tally_weighted)
  have get: "\<And>c. c \<in> set CATEGORIES \<Longrightarrow>
      num_get (map (\<lambda>c. (c, Some (tally s (remaining_of s) c))) CATEGORIES) c
        = Some (tally s (remaining_of s) c)"
    by (simp add: num_get_def map_of_tabulate)
  have len: "length (remaining_of s) = 48" by (rule length_remaining_of [OF assms])
  have evq: "\<And>x. num_div fdiv (Some x) 48 = Some (fdiv (real_of_int x) (real 48))"
    by (simp add: num_div_def)
  have ps: "fromEntries (map (\<lambda>c. (c, num_div fdiv
        (num_get (map (\<lambda>c. (c, Some (tally s (remaining_of s) c))) CATEGORIES) c) 48)) CATEGORIES)
      = map (\<lambda>c. (c, Some (fdiv (real_of_int (tally s (remaining_of s) c)) (real 48)))) CATEGORIES"
    by (simp add: fromEntries_tabulate [OF distinct_CATEGORIES] get evq cong: map_cong)
  show ?thesis
    unfolding computeEV_def
    using ne dist
    by (simp add: Let_def remaining_of_def [symmetric] init loop ps evq len
        del: set_simps list.set)
qed

lemma valid_s0: "valid_selection \<lparr>cardA = ''Ah'', cardB = ''Kh'', cardC = ''Qh'', board = ''Jh'', result = None\<rparr>"
  by (simp add: valid_selection_def DECK_list)

lemma computeEV_incomplete:
  assumes "cardA s = [] \<or> cardB s = [] \<or> cardC s = [] \<or> board s = []"
  shows "result (computeEV fdiv s)
    = Some (Error ''Please select all 3 hole cards and the shown community card.'')"
  using assms unfolding computeEV_def by auto

lemma computeEV_duplicate:
  assumes "cardA s \<noteq> []" "cardB s \<noteq> []" "cardC s \<noteq> []" "board s \<noteq> []"
    and "\<not> distinct [cardA s, cardB s, cardC s, board s]"
  shows "result (computeEV fdiv s)
    = Some (Error ''Duplicate card detected. Please choose distinct cards.'')"
proof -
  have "card (set [cardA s, cardB s, cardC s, board s]) < 4"
    using assms(5) card_lt_4 [of "cardA s" "cardB s" "cardC s" "board s"] by blast
  then show ?thesis
    unfolding computeEV_def Let_def using assms(1-4) by (simp del: set_simps list.set)
qed

lemma duplicate_example:
  "result (computeEV (/) \<lparr>cardA = ''Ah'', cardB = ''Ah'', cardC = ''2c'', board = ''3d'', result = None\<rparr>)
     = Some (Error ''Duplicate card detected. Please choose distinct cards.'')"
  by (rule computeEV_duplicate) simp_all

lemma tally_nonneg: "0 \<le> tally s cs c"
  by (simp add: tally_def)

lemma tally_le: "tally s cs c \<le> int (length cs)"
  by (simp add: tally_def)

lemma rounded_probs_sum:
  fixes cnt :: "string \<Rightarrow> int"
  assumes rnd: "\<forall>k::int. 0 \<le> k \<and> k \<le> 48 \<longrightarrow>
        \<bar>fdiv (real_of_int k) (real 48) - real_of_int k / 48\<bar> \<le> \<bar>real_of_int k / 48\<bar> / 2 ^ 53"
    and nonneg: "\<And>c. 0 \<le> cnt c"
    and le: "\<And>c. cnt c \<le> 48"
    and total: "(\<Sum>c\<leftarrow>CATEGORIES. cnt c) = 48"
  shows "\<bar>(\<Sum>c\<leftarrow>CATEGORIES. fdiv (real_of_int (cnt c)) (real 48)) - 1\<bar> \<le> 1 / 10 ^ 9"
proof -
  define q where "q c = real_of_int (cnt c) / 48" for c
  define p where "p c = fdiv (real_of_int (cnt c)) (real 48)" for c
  have q0: "0 \<le> q c" for c using nonneg [of c] by (simp add: q_def)
  have d: "\<bar>p c - q c\<bar> \<le> q c / 2 ^ 53" for c
  proof -
    have "\<bar>fdiv (real_of_int (cnt c)) (real 48) - real_of_int (cnt c) / 48\<bar>
        \<le> \<bar>real_of_int (cnt c) / 48\<bar> / 2 ^ 53"
      using rnd nonneg [of c] le [of c] by blast
    then show ?thesis using q0 [of c] by (simp add: p_def q_def)
  qed
  have "(\<Sum>c\<leftarrow>CATEGORIES. q c) = real_of_int (\<Sum>c\<leftarrow>CATEGORIES. cnt c) / 48"
    by (simp add: CATEGORIES_def q_def add_divide_distrib)
  then have sq: "(\<Sum>c\<leftarrow>CATEGORIES. q c) = 1" by (simp add: total)
  have "\<bar>(\<Sum>c\<leftarrow>CATEGORIES. p c) - (\<Sum>c\<leftarrow>CATEGORIES. q c)\<bar>
      = \<bar>\<Sum>c\<leftarrow>CATEGORIES. p c - q c\<bar>"
    by (simp add: sum_list_subtractf)
  also have "\<dots> \<le> (\<Sum>c\<leftarrow>CATEGORIES. \<bar>p c - q c\<bar>)"
    using sum_list_abs [of "map (\<lambda>c. p c - q c) CATEGORIES"] by (simp add: comp_def)
  also have "\<dots> \<le> (\<Sum>c\<leftarrow>CATEGORIES. q c / 2 ^ 53)"
    by (rule sum_list_mono) (rule d)
  also have "\<dots> = (\<Sum>c\<leftarrow>CATEGORIES. q c) / 2 ^ 53"
    by (simp add: CATEGORIES_def add_divide_distrib)
  also have "\<dots> \<le> 1 / 10 ^ 9" by (simp add: sq)
  finally show ?thesis by (simp add: sq p_def)
qed

lemma loop_body_cards:
  assumes "cardA s = cardA s'" "cardB s = cardB s'" "cardC s = cardC s'" "board s = board s'"
  shows "loop_body s = loop_body s'"
  by (rule ext, rule ext) (simp add: loop_body_def assms)

lemma computeEV_result_cards:
  assumes "cardA s = cardA s'" "cardB s = cardB s'" "cardC s = cardC s'" "board s = board s'"
  shows "result (computeEV fdiv s) = result (computeEV fdiv s')"
  unfolding computeEV_def Let_def
  by (simp add: assms loop_body_cards [OF assms] del: set_simps list.set)

lemma computeEV_keeps_cards:
  "cardA (computeEV fdiv s) = cardA s" "cardB (computeEV fdiv s) = cardB s"
  "cardC (computeEV fdiv s) = cardC s" "board (computeEV fdiv s) = board s"
  unfolding computeEV_def Let_def by (simp_all del: set_simps list.set)

subsection \<open>The rank histogram\<close>

lemma counts_of_snoc:
  "counts_of (ranks @ [r]) =
     AList.update (propKey r) (or_zero (map_of (counts_of ranks) (propKey r)) + 1) (counts_of ranks)"
  by (simp add: counts_of_def)

lemma counts_of_lookup:
  "map_of (counts_of ranks) k =
     (if k \<in> propKey ` set ranks then Some (int (count_list (map propKey ranks) k)) else None)"
proof (induction ranks arbitrary: k rule: rev_induct)
  case Nil
  show ?case by (simp add: counts_of_def)
next
  case (snoc r ranks)
  show ?case
    by (auto simp add: counts_of_snoc AList.update_conv' snoc.IH or_zero_def)
qed

lemma counts_of_distinct: "distinct (map fst (counts_of ranks))"
proof (induction ranks rule: rev_induct)
  case Nil
  show ?case by (simp add: counts_of_def)
next
  case (snoc r ranks)
  then show ?case by (simp add: counts_of_snoc AList.distinct_update)
qed

lemma counts_of_keys: "fst ` set (counts_of ranks) = propKey ` set ranks"
proof (induction ranks rule: rev_induct)
  case Nil
  show ?case by (simp add: counts_of_def)
next
  case (snoc r ranks)
  then show ?case by (simp add: counts_of_snoc AList.dom_update)
qed

lemma mset_ownEntries: "mset (ownEntries obj) = mset obj"
  by (simp add: ownEntries_def)

lemma set_ownEntries: "set (ownEntries obj) = set obj"
  using mset_ownEntries [of obj] by (metis set_mset_mset)

lemma set_Object_keys: "set (Object_keys obj) = fst ` set obj"
  by (simp add: Object_keys_def set_ownEntries)

lemma mset_Object_values: "mset (Object_values obj) = mset (map snd obj)"
  unfolding Object_values_def
  by (metis mset_map mset_ownEntries)

lemma mset_freqs_of: "mset (freqs_of obj) = mset (map snd obj)"
  by (simp add: freqs_of_def mset_Object_values)

text \<open>Ranks read off cards are \<open>undefined\<close> or one-character strings, on which
  \<open>propKey\<close> is injective.\<close>

lemma ranks_of_shape: "r \<in> set (ranks_of cards) \<Longrightarrow> r = None \<or> (\<exists>c. r = Some [c])"
  by (auto simp add: ranks_of_def charAt_def)

lemma propKey_inj: "inj_on propKey (set (ranks_of cards))"
proof (rule inj_onI)
  fix x y
  assume "x \<in> set (ranks_of cards)" "y \<in> set (ranks_of cards)" "propKey x = propKey y"
  then show "x = y"
    using ranks_of_shape [of x cards] ranks_of_shape [of y cards]
    by (auto simp add: propKey_def)
qed

lemma counts_of_rank:
  assumes "r \<in> set (ranks_of cards)"
  shows "map_of (counts_of (ranks_of cards)) (propKey r)
    = Some (int (count_list (ranks_of cards) r))"
  using assms by (simp add: counts_of_lookup count_list_inj_map [OF propKey_inj])

lemma counts_of_entry:
  assumes "(k, v) \<in> set (counts_of (ranks_of cards))"
  shows "\<exists>r\<in>set (ranks_of cards). k = propKey r \<and> v = int (count_list (ranks_of cards) r)"
proof -
  from assms have "k \<in> fst ` set (counts_of (ranks_of cards))" by force
  then obtain r where r: "r \<in> set (ranks_of cards)" "k = propKey r"
    by (auto simp add: counts_of_keys)
  from assms have "map_of (counts_of (ranks_of cards)) k = Some v"
    using counts_of_distinct by (simp add: map_of_eq_Some_iff)
  with r show ?thesis using counts_of_rank [OF r(1)] by auto
qed

lemma freqs_of_elem:
  assumes "elemAt (freqs_of (counts_of (ranks_of cards))) i = Some v"
  shows "\<exists>r\<in>set (ranks_of cards). v = int (count_list (ranks_of cards) r)"
proof -
  from assms have "v \<in> set (freqs_of (counts_of (ranks_of cards)))"
    by (auto simp add: elemAt_def split: if_splits)
  then have "v \<in> set (map snd (counts_of (ranks_of cards)))"
    using mset_freqs_of [of "counts_of (ranks_of cards)"] by (metis set_mset_mset)
  then obtain k where "(k, v) \<in> set (counts_of (ranks_of cards))" by auto
  then show ?thesis using counts_of_entry by blast
qed

subsection \<open>Flush and straight\<close>

lemma isFlush_same_suit:
  assumes "cards \<noteq> []"
  shows "isFlush_of (suits_of cards) \<longleftrightarrow> same_suit cards"
proof
  assume "isFlush_of (suits_of cards)"
  then obtain x where "set (suits_of cards) = {x}"
    by (auto simp add: isFlush_of_def card_1_singleton_iff)
  then show "same_suit cards" by (simp add: same_suit_def)
next
  assume same: "same_suit cards"
  from assms obtain x where x: "x \<in> set (suits_of cards)"
    by (cases cards) (auto simp add: suits_of_def)
  with same have "set (suits_of cards) = {x}" by (auto simp add: same_suit_def)
  then show "isFlush_of (suits_of cards)" by (simp add: isFlush_of_def)
qed

lemma rankIndex_values:
  "rankIndex (Some ''2'') = 0" "rankIndex (Some ''3'') = 1" "rankIndex (Some ''4'') = 2"
  "rankIndex (Some ''5'') = 3" "rankIndex (Some ''6'') = 4" "rankIndex (Some ''7'') = 5"
  "rankIndex (Some ''8'') = 6" "rankIndex (Some ''9'') = 7" "rankIndex (Some ''T'') = 8"
  "rankIndex (Some ''J'') = 9" "rankIndex (Some ''Q'') = 10" "rankIndex (Some ''K'') = 11"
  "rankIndex (Some ''A'') = 12"
  by (simp_all add: rankIndex_def RANKS_def)

lemma sort_unique:
  fixes xs ys :: "int list"
  assumes "distinct xs" "set xs = set ys" "sorted ys" "distinct ys"
  shows "sort xs = ys"
  by (rule sorted_distinct_set_unique) (simp_all add: assms)

lemma distinct_ranks_of_set:
  assumes "length cards = 5" "card (set (ranks_of cards)) = 5"
  shows "distinct (ranks_of cards)"
proof (rule card_distinct)
  have "length (ranks_of cards) = 5" by (simp add: ranks_of_def assms(1))
  with assms(2) show "card (set (ranks_of cards)) = length (ranks_of cards)" by simp
qed

lemma vals_of_wheel:
  assumes "length cards = 5"
    and "set (ranks_of cards) = {Some ''A'', Some ''2'', Some ''3'', Some ''4'', Some ''5''}"
  shows "vals_of (ranks_of cards) = [0, 1, 2, 3, 12]"
proof -
  have d: "distinct (ranks_of cards)"
    by (rule distinct_ranks_of_set [OF assms(1)]) (simp add: assms(2))
  have "inj_on rankIndex (set (ranks_of cards))"
    by (simp add: assms(2) rankIndex_values)
  with d have "distinct (map rankIndex (ranks_of cards))" by (simp add: distinct_map)
  moreover have "set (map rankIndex (ranks_of cards)) = set [0, 1, 2, 3, 12]"
    by (auto simp add: assms(2) rankIndex_values)
  ultimately show ?thesis unfolding vals_of_def by (rule sort_unique) simp_all
qed

lemma vals_of_broadway:
  assumes "length cards = 5"
    and "set (ranks_of cards) = {Some ''T'', Some ''J'', Some ''Q'', Some ''K'', Some ''A''}"
  shows "vals_of (ranks_of cards) = [8, 9, 10, 11, 12]"
proof -
  have d: "distinct (ranks_of cards)"
    by (rule distinct_ranks_of_set [OF assms(1)]) (simp add: assms(2))
  have "inj_on rankIndex (set (ranks_of cards))"
    by (simp add: assms(2) rankIndex_values)
  with d have "distinct (map rankIndex (ranks_of cards))" by (simp add: distinct_map)
  moreover have "set (map rankIndex (ranks_of cards)) = set [8, 9, 10, 11, 12]"
    by (auto simp add: assms(2) rankIndex_values)
  ultimately show ?thesis unfolding vals_of_def by (rule sort_unique) simp_all
qed

lemma distinct_count_list_le: "distinct xs \<Longrightarrow> count_list xs x \<le> 1"
  by (induction xs) auto

lemma freqs_of_distinct_ranks:
  assumes "distinct (ranks_of cards)"
    and "elemAt (freqs_of (counts_of (ranks_of cards))) i = Some v"
  shows "v = 1"
proof -
  from freqs_of_elem [OF assms(2)] obtain r
    where r: "r \<in> set (ranks_of cards)" "v = int (count_list (ranks_of cards) r)" by blast
  have "count_list (ranks_of cards) r \<le> 1" using assms(1) by (rule distinct_count_list_le)
  moreover have "count_list (ranks_of cards) r \<noteq> 0" using r(1) by (simp add: count_list_0_iff)
  ultimately show ?thesis using r(2) by simp
qed

lemma list5: "length xs = 5 \<Longrightarrow> \<exists>a b c d e. xs = [a, b, c, d, e]"
  by (auto simp add: length_Suc_conv eval_nat_numeral)

lemma isStraight_of_distinct:
  assumes "isStraight_of vals"
  shows "distinct vals"
proof -
  from assms have len: "length vals = 5"
    by (auto simp add: isStraight_of_def split: if_splits)
  from assms consider
    (wheel) "vals ! 0 = 0" "vals ! 1 = 1" "vals ! 2 = 2" "vals ! 3 = 3" "vals ! 4 = 12"
    | (run) "card (set vals) = 5"
    by (auto simp add: isStraight_of_def split: if_splits)
  then show ?thesis
  proof cases
    case wheel
    from list5 [OF len] obtain a b c d e where "vals = [a, b, c, d, e]" by blast
    with wheel show ?thesis by simp
  next
    case run
    with len show ?thesis by (simp add: card_distinct)
  qed
qed

lemma isStraight_distinct_ranks:
  assumes "isStraight_of (vals_of ranks)"
  shows "distinct ranks"
proof -
  from isStraight_of_distinct [OF assms] have "distinct (map rankIndex ranks)"
    by (simp add: vals_of_def)
  then show ?thesis by (simp add: distinct_map)
qed

lemma isStraight_wheel: "isStraight_of [0, 1, 2, 3, 12]"
  by (simp add: isStraight_of_def)

lemma isStraight_broadway: "isStraight_of [8, 9, 10, 11, 12]"
  by (simp add: isStraight_of_def)

text \<open>On five cards, the test of the source is the straight of the statements:
  five consecutive rank values, or the wheel.\<close>

lemma sorted5_strict:
  fixes a :: int
  assumes "sorted [a, b, c, d, e]" "distinct [a, b, c, d, e]"
  shows "a < b \<and> b < c \<and> c < d \<and> d < e"
  using assms by (simp add: less_le)

lemma isStraight_of_correct:
  assumes len: "length cards = 5"
  shows "isStraight_of (vals_of (ranks_of cards)) \<longleftrightarrow> straight_hand cards"
proof
  let ?vs = "vals_of (ranks_of cards)"
  assume st: "isStraight_of ?vs"
  then have d: "distinct ?vs" by (rule isStraight_of_distinct)
  have s: "sorted ?vs" by (simp add: vals_of_def)
  have l: "length ?vs = 5" by (simp add: vals_of_def ranks_of_def len)
  have set_eq: "set ?vs = set (map rankIndex (ranks_of cards))" by (simp add: vals_of_def)
  from list5 [OF l] obtain a b c d' e where v: "?vs = [a, b, c, d', e]" by blast
  from s d v have lt: "a < b \<and> b < c \<and> c < d' \<and> d' < e" using sorted5_strict [of a b c d' e] by simp
  from st v consider (wheel) "a = 0" "b = 1" "c = 2" "d' = 3" "e = 12" | (run) "e - a = 4"
    by (auto simp add: isStraight_of_def split: if_splits)
  then show "straight_hand cards"
  proof cases
    case wheel
    with v have "set ?vs = {0, 1, 2, 3, 12}" by simp
    with set_eq len show ?thesis by (simp add: straight_hand_def)
  next
    case run
    with lt have "b = a + 1" "c = a + 2" "d' = a + 3" "e = a + 4" by simp_all
    with v have "set ?vs = {a, a + 1, a + 2, a + 3, a + 4}" by simp
    also have "\<dots> = {a .. a + 4}" by (simp add: atLeastAtMost_def atLeast_def atMost_def set_eq_iff) arith
    finally have "set ?vs = {a .. a + 4}" .
    moreover have "a \<in> set ?vs" using v by simp
    ultimately show ?thesis using set_eq len unfolding straight_hand_def by metis
  qed
next
  let ?ms = "map rankIndex (ranks_of cards)"
  assume sh: "straight_hand cards"
  have l: "length ?ms = 5" by (simp add: ranks_of_def len)
  from sh consider (wheel) "set ?ms = {0, 1, 2, 3, 12}"
    | (run) lo where "set ?ms = {lo .. lo + 4}"
    by (auto simp add: straight_hand_def)
  then show "isStraight_of (vals_of (ranks_of cards))"
  proof cases
    case wheel
    have "card {0, 1, 2, 3, 12 :: int} = 5" by simp
    with wheel l have "card (set ?ms) = length ?ms" by (simp only:)
    then have "distinct ?ms" by (rule card_distinct)
    then have "sort ?ms = [0, 1, 2, 3, 12]" by (rule sort_unique) (use wheel in simp_all)
    then show ?thesis by (simp add: vals_of_def isStraight_wheel)
  next
    case run
    have iv: "{lo .. lo + 4} = {lo, lo + 1, lo + 2, lo + 3, lo + 4}"
      by (simp add: atLeastAtMost_def atLeast_def atMost_def set_eq_iff) arith
    have "card {lo .. lo + 4} = 5" by simp
    with run l have "card (set ?ms) = length ?ms" by (simp only:)
    then have "distinct ?ms" by (rule card_distinct)
    then have "sort ?ms = [lo, lo + 1, lo + 2, lo + 3, lo + 4]"
      by (rule sort_unique) (use run iv in simp_all)
    then show ?thesis by (simp add: vals_of_def isStraight_of_def)
  qed
qed

lemma find_unique:
  assumes "a \<in> set xs" "P a" "\<forall>x\<in>set xs. P x \<longrightarrow> x = a"
  shows "List.find P xs = Some a"
  using assms
proof (induction xs)
  case Nil
  then show ?case by simp
next
  case (Cons x xs)
  show ?case
  proof (cases "P x")
    case True
    with Cons.prems(3) have "x = a" by simp
    with True show ?thesis by simp
  next
    case False
    with Cons.prems(2) have "a \<noteq> x" by blast
    with Cons.prems(1) have "a \<in> set xs" by simp
    moreover have "\<forall>y\<in>set xs. P y \<longrightarrow> y = a" using Cons.prems(3) by simp
    ultimately have "List.find P xs = Some a" using Cons.IH Cons.prems(2) by blast
    with False show ?thesis by simp
  qed
qed

lemma js_includes_propKey:
  "js_includes [''T'', ''J'', ''Q'', ''K'', ''A''] (Some (propKey r))
     \<longleftrightarrow> r \<in> {Some ''T'', Some ''J'', Some ''Q'', Some ''K'', Some ''A''}"
  by (cases r) (simp_all add: js_includes_def propKey_def)

lemma counts_of_mset:
  "mset (map snd (counts_of (ranks_of cards)))
     = image_mset (\<lambda>r. int (count_list (ranks_of cards) r)) (mset_set (set (ranks_of cards)))"
proof -
  let ?rs = "ranks_of cards"
  let ?f = "\<lambda>r. (propKey r, int (count_list ?rs r))"
  have inj: "inj_on ?f (set ?rs)"
    using propKey_inj [of cards] by (auto simp add: inj_on_def)
  have "set (counts_of ?rs) = ?f ` set ?rs"
  proof
    show "set (counts_of ?rs) \<subseteq> ?f ` set ?rs"
      using counts_of_entry [of _ _ cards] by auto
    show "?f ` set ?rs \<subseteq> set (counts_of ?rs)"
    proof
      fix p assume "p \<in> ?f ` set ?rs"
      then obtain r where r: "r \<in> set ?rs" "p = ?f r" by blast
      from counts_of_rank [OF r(1)] have "(propKey r, int (count_list ?rs r)) \<in> set (counts_of ?rs)"
        by (rule map_of_SomeD)
      with r(2) show "p \<in> set (counts_of ?rs)" by simp
    qed
  qed
  then have "mset_set (set (counts_of ?rs)) = mset_set (?f ` set ?rs)" by (rule arg_cong)
  moreover have "distinct (counts_of ?rs)"
    using counts_of_distinct [of ?rs] by (simp add: distinct_map)
  then have "mset_set (set (counts_of ?rs)) = mset (counts_of ?rs)" by (rule mset_set_set)
  moreover have "mset_set (?f ` set ?rs) = image_mset ?f (mset_set (set ?rs))"
    using inj by (rule image_mset_mset_set [symmetric])
  ultimately have "mset (counts_of ?rs) = image_mset ?f (mset_set (set ?rs))" by simp
  then have "image_mset snd (mset (counts_of ?rs))
      = image_mset snd (image_mset ?f (mset_set (set ?rs)))" by (rule arg_cong)
  then show ?thesis by (simp add: image_mset.compositionality comp_def)
qed

lemma freqs_single_pair:
  assumes len: "length cards = 5"
    and two: "count_list (ranks_of cards) r = 2"
    and rest: "\<forall>r'\<in>set (ranks_of cards). r' \<noteq> r \<longrightarrow> count_list (ranks_of cards) r' = 1"
  shows "freqs_of (counts_of (ranks_of cards)) = [2, 1, 1, 1]"
proof -
  let ?rs = "ranks_of cards"
  let ?S = "set ?rs - {r}"
  have "count_list ?rs r \<noteq> 0" using two by simp
  then have r_in: "r \<in> set ?rs" by (simp add: count_list_0_iff)
  have split: "set ?rs = insert r ?S" using r_in by auto
  have "(\<Sum>x\<in>set ?rs. count_list ?rs x) = length ?rs" by (rule sum_count_set) simp_all
  also have "length ?rs = 5" by (simp add: ranks_of_def len)
  finally have "(\<Sum>x\<in>insert r ?S. count_list ?rs x) = 5" using split by simp
  moreover have "(\<Sum>x\<in>insert r ?S. count_list ?rs x) = count_list ?rs r + (\<Sum>x\<in>?S. count_list ?rs x)"
    by (rule sum.insert) simp_all
  moreover have "(\<Sum>x\<in>?S. count_list ?rs x) = (\<Sum>x\<in>?S. 1)"
    by (rule sum.cong) (use rest in auto)
  ultimately have cardS: "card ?S = 3" using two by simp
  have "mset (map snd (counts_of ?rs))
      = image_mset (\<lambda>r'. int (count_list ?rs r')) (mset_set (insert r ?S))"
    using counts_of_mset [of cards] split by simp
  also have "mset_set (insert r ?S) = add_mset r (mset_set ?S)"
    by (rule mset_set.insert) simp_all
  also have "image_mset (\<lambda>r'. int (count_list ?rs r')) (add_mset r (mset_set ?S))
      = add_mset 2 (image_mset (\<lambda>r'. int (count_list ?rs r')) (mset_set ?S))"
    by (simp add: two)
  also have "image_mset (\<lambda>r'. int (count_list ?rs r')) (mset_set ?S)
      = image_mset (\<lambda>_. 1) (mset_set ?S)"
    by (rule image_mset_cong) (use rest in auto)
  also have "\<dots> = replicate_mset 3 1"
    by (simp add: image_mset_const_eq cardS)
  finally have "mset (map snd (counts_of ?rs)) = mset [1, 1, 1, 2 :: int]"
    by (simp add: eval_nat_numeral)
  then have "mset [1, 1, 1, 2 :: int] = mset (Object_values (counts_of ?rs))"
    by (simp add: mset_Object_values)
  then have "sort (Object_values (counts_of ?rs)) = [1, 1, 1, 2]"
    by (rule properties_for_sort) simp
  then show ?thesis by (simp add: freqs_of_def)
qed

lemma charAt_simps:
  "charAt (x # s) 0 = Some [x]" "charAt (x # y # s) (Suc 0) = Some [y]"
  by (simp_all add: charAt_def)

lemma ranks_of_simps: "ranks_of [] = []" "ranks_of (c # cs) = charAt c 0 # ranks_of cs"
  by (simp_all add: ranks_of_def)

lemma suits_of_simps: "suits_of [] = []" "suits_of (c # cs) = charAt c 1 # suits_of cs"
  by (simp_all add: suits_of_def)

lemma pairRank_single_pair:
  assumes two: "count_list (ranks_of cards) r = 2"
    and rest: "\<forall>r'\<in>set (ranks_of cards). r' \<noteq> r \<longrightarrow> count_list (ranks_of cards) r' = 1"
  shows "List.find (\<lambda>k. map_of (counts_of (ranks_of cards)) k = Some 2)
           (Object_keys (counts_of (ranks_of cards))) = Some (propKey r)"
proof (rule find_unique)
  let ?rs = "ranks_of cards"
  have "count_list ?rs r \<noteq> 0" using two by simp
  then have r_in: "r \<in> set ?rs" by (simp add: count_list_0_iff)
  then show "propKey r \<in> set (Object_keys (counts_of ?rs))"
    by (simp add: set_Object_keys counts_of_keys)
  show "map_of (counts_of ?rs) (propKey r) = Some 2"
    by (simp add: counts_of_rank [OF r_in] two)
  show "\<forall>k\<in>set (Object_keys (counts_of ?rs)).
          map_of (counts_of ?rs) k = Some 2 \<longrightarrow> k = propKey r"
  proof (intro ballI impI)
    fix k
    assume k: "k \<in> set (Object_keys (counts_of ?rs))" and v: "map_of (counts_of ?rs) k = Some 2"
    from k obtain r' where r': "r' \<in> set ?rs" "k = propKey r'"
      by (auto simp add: set_Object_keys counts_of_keys)
    from v r' have "count_list ?rs r' = 2" by (simp add: counts_of_rank)
    with rest r'(1) have "r' = r" by force
    with r'(2) show "k = propKey r" by simp
  qed
qed

lemma low_pair_hand:
  "count_list (ranks_of [''9h'', ''3h'', ''9c'', ''4d'', ''5s'']) (Some ''9'') = 2"
  "\<forall>r'\<in>set (ranks_of [''9h'', ''3h'', ''9c'', ''4d'', ''5s'']).
      r' \<noteq> Some ''9'' \<longrightarrow> count_list (ranks_of [''9h'', ''3h'', ''9c'', ''4d'', ''5s'']) r' = 1"
  "\<not> same_suit [''9h'', ''3h'', ''9c'', ''4d'', ''5s'']"
  by (simp_all add: ranks_of_simps suits_of_simps charAt_simps same_suit_def)

lemma high_pair_hand:
  "count_list (ranks_of [''Th'', ''3h'', ''Tc'', ''4d'', ''5s'']) (Some ''T'') = 2"
  "\<forall>r'\<in>set (ranks_of [''Th'', ''3h'', ''Tc'', ''4d'', ''5s'']).
      r' \<noteq> Some ''T'' \<longrightarrow> count_list (ranks_of [''Th'', ''3h'', ''Tc'', ''4d'', ''5s'']) r' = 1"
  "\<not> same_suit [''Th'', ''3h'', ''Tc'', ''4d'', ''5s'']"
  by (simp_all add: ranks_of_simps suits_of_simps charAt_simps same_suit_def)

lemma wheel_hands:
  "set (ranks_of [''Ah'', ''2c'', ''3d'', ''4h'', ''5s''])
     = {Some ''A'', Some ''2'', Some ''3'', Some ''4'', Some ''5''}"
  "\<not> same_suit [''Ah'', ''2c'', ''3d'', ''4h'', ''5s'']"
  "set (ranks_of [''5h'', ''4h'', ''Ah'', ''3h'', ''2h''])
     = {Some ''A'', Some ''2'', Some ''3'', Some ''4'', Some ''5''}"
  "same_suit [''5h'', ''4h'', ''Ah'', ''3h'', ''2h'']"
proof -
  show "set (ranks_of [''Ah'', ''2c'', ''3d'', ''4h'', ''5s''])
     = {Some ''A'', Some ''2'', Some ''3'', Some ''4'', Some ''5''}"
    by (simp add: ranks_of_simps charAt_simps)
  show "\<not> same_suit [''Ah'', ''2c'', ''3d'', ''4h'', ''5s'']"
    by (simp add: suits_of_simps charAt_simps same_suit_def)
  show "set (ranks_of [''5h'', ''4h'', ''Ah'', ''3h'', ''2h''])
     = {Some ''A'', Some ''2'', Some ''3'', Some ''4'', Some ''5''}"
    by (simp add: ranks_of_simps charAt_simps) blast
  show "same_suit [''5h'', ''4h'', ''Ah'', ''3h'', ''2h'']"
    by (simp add: suits_of_simps charAt_simps same_suit_def)
qed

lemma broadway_interval: "{8 .. 8 + 4} = {8, 9, 10, 11, 12 :: int}"
  by (simp add: atLeastAtMost_def atLeast_def atMost_def set_eq_iff) arith

lemma king_high_hand:
  "set (ranks_of [''9h'', ''Kh'', ''Qh'', ''Jh'', ''Th''])
     \<noteq> {Some ''T'', Some ''J'', Some ''Q'', Some ''K'', Some ''A''}"
proof
  assume eq: "set (ranks_of [''9h'', ''Kh'', ''Qh'', ''Jh'', ''Th''])
     = {Some ''T'', Some ''J'', Some ''Q'', Some ''K'', Some ''A''}"
  have "Some ''A'' \<in> {Some ''T'', Some ''J'', Some ''Q'', Some ''K'', Some ''A''}" by simp
  with eq have "Some ''A'' \<in> set (ranks_of [''9h'', ''Kh'', ''Qh'', ''Jh'', ''Th''])" by simp
  then show False by (simp add: ranks_of_simps charAt_simps)
qed

lemma royal_hand:
  "set (ranks_of [''Ah'', ''Kh'', ''Qh'', ''Jh'', ''Th''])
     = {Some ''T'', Some ''J'', Some ''Q'', Some ''K'', Some ''A''}"
  "same_suit [''Ah'', ''Kh'', ''Qh'', ''Jh'', ''Th'']"
  "straight_hand [''Ah'', ''Kh'', ''Qh'', ''Jh'', ''Th'']"
proof -
  show rs: "set (ranks_of [''Ah'', ''Kh'', ''Qh'', ''Jh'', ''Th''])
     = {Some ''T'', Some ''J'', Some ''Q'', Some ''K'', Some ''A''}"
    by (simp add: ranks_of_simps charAt_simps) blast
  show "same_suit [''Ah'', ''Kh'', ''Qh'', ''Jh'', ''Th'']"
    by (simp add: suits_of_simps charAt_simps same_suit_def)
  have "set (map rankIndex (ranks_of [''Ah'', ''Kh'', ''Qh'', ''Jh'', ''Th''])) = {8, 9, 10, 11, 12}"
    by (simp add: rs rankIndex_values)
  then have v: "set (map rankIndex (ranks_of [''Ah'', ''Kh'', ''Qh'', ''Jh'', ''Th''])) = {8 .. 8 + 4}"
    by (simp only: broadway_interval)
  have "8 \<in> {8 .. 8 + 4 :: int}" by simp
  with v have m: "8 \<in> set (map rankIndex (ranks_of [''Ah'', ''Kh'', ''Qh'', ''Jh'', ''Th'']))"
    by simp
  have "length [''Ah'', ''Kh'', ''Qh'', ''Jh'', ''Th''] = 5" by simp
  with v m show "straight_hand [''Ah'', ''Kh'', ''Qh'', ''Jh'', ''Th'']"
    unfolding straight_hand_def by blast
qed


section \<open>The model on concrete hands\<close>

text \<open>
  The classifier and the engine evaluated on concrete inputs: one hand per rung of the
  ladder, and the counters for the selection Ah, Kh, Qh with Jh shown (one royal flush,
  eight flushes, three straights, twelve high pairs and twenty-four losing hands).
\<close>

lemma classify5_examples:
  "classify5 [''Ah'', ''Kh'', ''Qh'', ''Jh'', ''Th''] = ''royal_flush''"
  "classify5 [''Ah'', ''Kh'', ''Qh'', ''Jh'', ''2c''] = ''nothing''"
  "classify5 [''2c'', ''2d'', ''2h'', ''7s'', ''2s''] = ''four_kind''"
  "classify5 [''2c'', ''2d'', ''2h'', ''7s'', ''7c''] = ''full_house''"
  "classify5 [''2c'', ''2d'', ''2h'', ''7s'', ''8c''] = ''three_kind''"
  "classify5 [''9s'', ''Ks'', ''Qs'', ''Js'', ''Ts''] = ''straight_flush''"
  "classify5 [''Ah'', ''Kh'', ''Qh'', ''Jh'', ''9h''] = ''flush''"
  "classify5 [''Ah'', ''Kh'', ''Qh'', ''Jh'', ''Tc''] = ''straight''"
  "classify5 [''4h'', ''4c'', ''9h'', ''9d'', ''Tc''] = ''two_pair''"
  by code_simp+

lemma computeEV_example:
  "map_option (\<lambda>r. case r of Outcome out \<Rightarrow> counts out | Error _ \<Rightarrow> [])
     (result (computeEV fdiv \<lparr>cardA = ''Ah'', cardB = ''Kh'', cardC = ''Qh'', board = ''Jh'', result = None\<rparr>))
   = Some [(''royal_flush'', Some 1), (''straight_flush'', Some 0), (''four_kind'', Some 0),
       (''full_house'', Some 0), (''flush'', Some 8), (''straight'', Some 3),
       (''three_kind'', Some 0), (''two_pair'', Some 0), (''pair_10_or_better'', Some 12),
       (''nothing'', Some 24)]"
  by code_simp

section \<open>Totality of the classifier\<close>

text \<open>
  C1. The classifier is total and exclusive: whatever list of cards it is given (in
  particular five pairwise distinct cards of the deck), the string it returns is equal
  to exactly one of the ten entries of \<open>CATEGORIES\<close>.
\<close>

theorem classify5_total:
  "length (filter (\<lambda>c. classify5 cards = c) CATEGORIES) = 1"
  unfolding classify5_def CATEGORIES_def Let_def by simp

theorem classify5_total_witness:
  "length (filter (\<lambda>c. classify5 [''Ah'', ''Kh'', ''Qh'', ''Jh'', ''Th''] = c) CATEGORIES) = 1"
  using classify5_total [of "[''Ah'', ''Kh'', ''Qh'', ''Jh'', ''Th'']"] .

section \<open>The priority ladder of the classifier\<close>

text \<open>
  C4. The wheel is a straight: five cards whose ranks are exactly A, 2, 3, 4 and 5 are
  classified as \<open>straight_flush\<close> when all five suits are identical and as
  \<open>straight\<close> otherwise; never as \<open>royal_flush\<close>, and never as \<open>nothing\<close>.
\<close>

theorem classify5_wheel:
  assumes "length cards = 5"
    and "set (ranks_of cards) = {Some ''A'', Some ''2'', Some ''3'', Some ''4'', Some ''5''}"
  shows "classify5 cards = (if same_suit cards then ''straight_flush'' else ''straight'')
    \<and> classify5 cards \<noteq> ''royal_flush'' \<and> classify5 cards \<noteq> ''nothing''"
proof -
  have ne: "cards \<noteq> []" using assms(1) by auto
  have straight: "isStraight_of (vals_of (ranks_of cards))"
    by (simp add: vals_of_wheel [OF assms] isStraight_wheel)
  have noT: "Some ''T'' \<notin> set (ranks_of cards)" by (simp add: assms(2))
  have d: "distinct (ranks_of cards)"
    by (rule distinct_ranks_of_set [OF assms(1)]) (simp add: assms(2))
  have f0: "elemAt (freqs_of (counts_of (ranks_of cards))) 0 \<noteq> Some 4"
    "elemAt (freqs_of (counts_of (ranks_of cards))) 0 \<noteq> Some 3"
    using freqs_of_distinct_ranks [OF d, of 0] by auto
  have "classify5 cards = (if same_suit cards then ''straight_flush'' else ''straight'')"
    unfolding classify5_def Let_def
    by (simp add: straight noT f0 isFlush_same_suit [OF ne])
  then show ?thesis by simp
qed

theorem classify5_wheel_witness:
  "classify5 [''Ah'', ''2c'', ''3d'', ''4h'', ''5s''] = ''straight''
   \<and> classify5 [''5h'', ''4h'', ''Ah'', ''3h'', ''2h''] = ''straight_flush''"
  using classify5_wheel [OF _ wheel_hands(1)] classify5_wheel [OF _ wheel_hands(3)]
    wheel_hands(2,4)
  by simp

text \<open>
  C5. A five-card hand is classified as \<open>royal_flush\<close> if and only if it is a
  straight, all its suits are identical, and its ranks are exactly T, J, Q, K and A.
\<close>

theorem classify5_royal_iff:
  assumes "length cards = 5"
  shows "classify5 cards = ''royal_flush'' \<longleftrightarrow>
     straight_hand cards \<and> same_suit cards
     \<and> set (ranks_of cards) = {Some ''T'', Some ''J'', Some ''Q'', Some ''K'', Some ''A''}"
proof
  assume royal: "classify5 cards = ''royal_flush''"
  have ne: "cards \<noteq> []" using assms by auto
  from royal have first: "isStraight_of (vals_of (ranks_of cards))" "isFlush_of (suits_of cards)"
    "card (set (ranks_of cards)) = 5"
    "{Some ''T'', Some ''J'', Some ''Q'', Some ''K'', Some ''A''} \<subseteq> set (ranks_of cards)"
    unfolding classify5_def Let_def by (auto split: if_splits)
  have "card {Some ''T'', Some ''J'', Some ''Q'', Some ''K'', Some ''A''} = 5" by simp
  with first(3,4) have rs: "set (ranks_of cards) = {Some ''T'', Some ''J'', Some ''Q'', Some ''K'', Some ''A''}"
    by (metis List.finite_set card_subset_eq)
  have "set (map rankIndex (ranks_of cards)) = {8 .. 8 + 4}"
    by (auto simp add: rs rankIndex_values)
  moreover have "8 \<in> set (map rankIndex (ranks_of cards))"
    by (simp add: rs rankIndex_values)
  ultimately have "straight_hand cards" unfolding straight_hand_def using assms by blast
  with first(2) rs show "straight_hand cards \<and> same_suit cards
     \<and> set (ranks_of cards) = {Some ''T'', Some ''J'', Some ''Q'', Some ''K'', Some ''A''}"
    by (simp add: isFlush_same_suit [OF ne])
next
  assume rhs: "straight_hand cards \<and> same_suit cards
     \<and> set (ranks_of cards) = {Some ''T'', Some ''J'', Some ''Q'', Some ''K'', Some ''A''}"
  have ne: "cards \<noteq> []" using assms by auto
  from rhs have rs: "set (ranks_of cards) = {Some ''T'', Some ''J'', Some ''Q'', Some ''K'', Some ''A''}"
    by simp
  have straight: "isStraight_of (vals_of (ranks_of cards))"
    by (simp add: vals_of_broadway [OF assms rs] isStraight_broadway)
  have flush: "isFlush_of (suits_of cards)" using rhs by (simp add: isFlush_same_suit [OF ne])
  show "classify5 cards = ''royal_flush''"
    unfolding classify5_def Let_def by (simp add: straight flush rs)
qed

theorem classify5_royal_iff_witness:
  "classify5 [''Ah'', ''Kh'', ''Qh'', ''Jh'', ''Th''] = ''royal_flush''
   \<and> classify5 [''9h'', ''Kh'', ''Qh'', ''Jh'', ''Th''] \<noteq> ''royal_flush''"
proof -
  have l1: "length [''Ah'', ''Kh'', ''Qh'', ''Jh'', ''Th''] = 5" by simp
  have l2: "length [''9h'', ''Kh'', ''Qh'', ''Jh'', ''Th''] = 5" by simp
  show ?thesis
    using classify5_royal_iff [OF l1] classify5_royal_iff [OF l2] royal_hand king_high_hand
    by blast
qed

text \<open>
  C6. A five-card hand in which one rank occurs exactly twice, every other rank occurs
  once, and the suits are not all identical (such a hand is never a straight) is
  classified as \<open>pair_10_or_better\<close> when the paired rank is T, J, Q, K or A, and as
  \<open>nothing\<close> otherwise.
\<close>

theorem classify5_single_pair:
  assumes len: "length cards = 5"
    and two: "count_list (ranks_of cards) r = 2"
    and rest: "\<forall>r'\<in>set (ranks_of cards). r' \<noteq> r \<longrightarrow> count_list (ranks_of cards) r' = 1"
    and suits: "\<not> same_suit cards"
  shows "classify5 cards =
     (if r \<in> {Some ''T'', Some ''J'', Some ''Q'', Some ''K'', Some ''A''}
      then ''pair_10_or_better'' else ''nothing'')"
proof -
  have ne: "cards \<noteq> []" using len by auto
  have freqs: "freqs_of (counts_of (ranks_of cards)) = [2, 1, 1, 1]"
    using len two rest by (rule freqs_single_pair)
  have no_straight: "\<not> isStraight_of (vals_of (ranks_of cards))"
  proof
    assume "isStraight_of (vals_of (ranks_of cards))"
    then have "distinct (ranks_of cards)" by (rule isStraight_distinct_ranks)
    then have "count_list (ranks_of cards) r \<le> 1" by (rule distinct_count_list_le)
    with two show False by simp
  qed
  have no_flush: "\<not> isFlush_of (suits_of cards)"
    using suits by (simp add: isFlush_same_suit [OF ne])
  show ?thesis
    unfolding classify5_def Let_def
    by (simp add: freqs no_straight no_flush elemAt_def
        pairRank_single_pair [OF two rest] js_includes_propKey del: insert_iff)
qed

theorem classify5_single_pair_witness:
  "classify5 [''9h'', ''3h'', ''9c'', ''4d'', ''5s''] = ''nothing''
   \<and> classify5 [''Th'', ''3h'', ''Tc'', ''4d'', ''5s''] = ''pair_10_or_better''"
  using classify5_single_pair [OF _ low_pair_hand]
    classify5_single_pair [OF _ high_pair_hand]
  by simp

section \<open>The enumeration engine on a valid selection\<close>

text \<open>
  C3. For four pairwise distinct cards of the deck, the candidate pool (the deck without
  the four known cards) has exactly 48 elements, the result's \<open>total\<close> is 48, every
  one of the ten counters holds a number, and the ten counters sum to 48.
\<close>

theorem computeEV_pool_48:
  assumes "valid_selection s"
  shows "length (remaining_of s) = 48 \<and>
     (\<exists>out cnt. result (computeEV fdiv s) = Some (Outcome out) \<and> total_n out = 48
        \<and> counts out = map (\<lambda>c. (c, Some (cnt c))) CATEGORIES
        \<and> (\<Sum>c\<leftarrow>CATEGORIES. cnt c) = 48)"
proof
  show "length (remaining_of s) = 48" using assms by (rule length_remaining_of)
next
  let ?cnt = "tally s (remaining_of s)"
  have "(\<Sum>c\<leftarrow>CATEGORIES. ?cnt c) = 48"
    by (simp add: sum_tally length_remaining_of [OF assms])
  then show "\<exists>out cnt. result (computeEV fdiv s) = Some (Outcome out) \<and> total_n out = 48
        \<and> counts out = map (\<lambda>c. (c, Some (cnt c))) CATEGORIES
        \<and> (\<Sum>c\<leftarrow>CATEGORIES. cnt c) = 48"
    by (simp add: computeEV_valid [OF assms]) blast
qed

theorem computeEV_pool_48_witness:
  "valid_selection \<lparr>cardA = ''Ah'', cardB = ''Kh'', cardC = ''Qh'', board = ''Jh'', result = None\<rparr>
   \<and> length (remaining_of \<lparr>cardA = ''Ah'', cardB = ''Kh'', cardC = ''Qh'', board = ''Jh'', result = None\<rparr>) = 48
   \<and> (\<exists>out cnt. result (computeEV (/) \<lparr>cardA = ''Ah'', cardB = ''Kh'', cardC = ''Qh'', board = ''Jh'', result = None\<rparr>)
         = Some (Outcome out) \<and> total_n out = 48
        \<and> counts out = map (\<lambda>c. (c, Some (cnt c))) CATEGORIES
        \<and> (\<Sum>c\<leftarrow>CATEGORIES. cnt c) = 48)"
  using computeEV_pool_48 [OF valid_s0, of "(/)"] valid_s0 by simp

text \<open>
  C2. For four pairwise distinct cards of the deck, the result holds an EV that is the
  quotient (by the program's division \<open>fdiv\<close>) of the sum over the ten categories of
  the category's counter times its paytable payout, by the pool size 48; each
  probability is the quotient of the category's counter by the total; and whenever the
  division is correctly rounded on the quotients \<open>k / 48\<close> for \<open>0 \<le> k \<le> 48\<close>
  (relative error at most \<open>2^-53\<close>, as for IEEE-754 doubles; exact division also
  satisfies it), the ten probabilities sum to 1 up to \<open>10^-9\<close>.
\<close>

theorem computeEV_ev_probs:
  assumes "valid_selection s"
  shows "\<exists>out cnt pay. result (computeEV fdiv s) = Some (Outcome out)
     \<and> counts out = map (\<lambda>c. (c, Some (cnt c))) CATEGORIES
     \<and> PAYTABLE = map (\<lambda>c. (c, pay c)) CATEGORIES
     \<and> total_n out = 48
     \<and> ev out = Some (fdiv (real_of_int (\<Sum>c\<leftarrow>CATEGORIES. cnt c * pay c)) (real (total_n out)))
     \<and> probs out = map (\<lambda>c. (c, Some (fdiv (real_of_int (cnt c)) (real (total_n out))))) CATEGORIES
     \<and> ((\<forall>k::int. 0 \<le> k \<and> k \<le> 48 \<longrightarrow>
             \<bar>fdiv (real_of_int k) (real 48) - real_of_int k / 48\<bar>
               \<le> \<bar>real_of_int k / 48\<bar> / 2 ^ 53)
          \<longrightarrow> \<bar>(\<Sum>c\<leftarrow>CATEGORIES. fdiv (real_of_int (cnt c)) (real (total_n out))) - 1\<bar>
                \<le> 1 / 10 ^ 9)"
proof -
  let ?cnt = "tally s (remaining_of s)"
  let ?out = "\<lparr>ev = Some (fdiv (real_of_int (\<Sum>c\<leftarrow>CATEGORIES. ?cnt c * payout_of c)) (real 48)),
       probs = map (\<lambda>c. (c, Some (fdiv (real_of_int (?cnt c)) (real 48)))) CATEGORIES,
       counts = map (\<lambda>c. (c, Some (?cnt c))) CATEGORIES,
       total_n = 48,
       breakdown = map (row_of s) (remaining_of s)\<rparr>"
  have res: "result (computeEV fdiv s) = Some (Outcome ?out)"
    by (simp add: computeEV_valid [OF assms])
  have tot: "(\<Sum>c\<leftarrow>CATEGORIES. ?cnt c) = 48"
    by (simp add: sum_tally length_remaining_of [OF assms])
  have le: "?cnt c \<le> 48" for c
    using tally_le [of s "remaining_of s" c] by (simp add: length_remaining_of [OF assms])
  have sum1: "(\<forall>k::int. 0 \<le> k \<and> k \<le> 48 \<longrightarrow>
             \<bar>fdiv (real_of_int k) (real 48) - real_of_int k / 48\<bar>
               \<le> \<bar>real_of_int k / 48\<bar> / 2 ^ 53)
          \<longrightarrow> \<bar>(\<Sum>c\<leftarrow>CATEGORIES. fdiv (real_of_int (?cnt c)) (real 48)) - 1\<bar> \<le> 1 / 10 ^ 9"
    using rounded_probs_sum [of fdiv ?cnt, OF _ tally_nonneg le tot] by blast
  show ?thesis
    apply (rule exI [of _ ?out])
    apply (rule exI [of _ ?cnt])
    apply (rule exI [of _ payout_of])
    using res sum1 PAYTABLE_tabulate by simp
qed

theorem computeEV_ev_probs_witness:
  "valid_selection \<lparr>cardA = ''Ah'', cardB = ''Kh'', cardC = ''Qh'', board = ''Jh'', result = None\<rparr>
   \<and> (\<exists>out cnt pay.
        result (computeEV (/) \<lparr>cardA = ''Ah'', cardB = ''Kh'', cardC = ''Qh'', board = ''Jh'', result = None\<rparr>)
          = Some (Outcome out)
     \<and> counts out = map (\<lambda>c. (c, Some (cnt c))) CATEGORIES
     \<and> PAYTABLE = map (\<lambda>c. (c, pay c)) CATEGORIES
     \<and> total_n out = 48
     \<and> ev out = Some (real_of_int (\<Sum>c\<leftarrow>CATEGORIES. cnt c * pay c) / real (total_n out))
     \<and> probs out = map (\<lambda>c. (c, Some (real_of_int (cnt c) / real (total_n out)))) CATEGORIES
     \<and> \<bar>(\<Sum>c\<leftarrow>CATEGORIES. real_of_int (cnt c) / real (total_n out)) - 1\<bar> \<le> 1 / 10 ^ 9)"
  using computeEV_ev_probs [OF valid_s0, of "(/)"] valid_s0 by simp

text \<open>
  C8. For four pairwise distinct cards of the deck, the breakdown has exactly one record
  per candidate, 48 in all, in the order of the deck; the record of a candidate holds
  the category of the four known cards followed by the candidate, and the payout the
  paytable holds for that category.
\<close>

theorem computeEV_breakdown:
  assumes "valid_selection s"
  shows "\<exists>out. result (computeEV fdiv s) = Some (Outcome out)
     \<and> length (breakdown out) = 48
     \<and> map finalCard (breakdown out) = filter (\<lambda>c. c \<notin> {cardA s, cardB s, cardC s, board s}) DECK
     \<and> breakdown out = map (row_of s) (remaining_of s)
     \<and> (\<forall>r\<in>set (breakdown out).
            cat r = classify5 [cardA s, cardB s, cardC s, board s, finalCard r]
          \<and> (\<exists>p. payout r = Some p \<and> (cat r, p) \<in> set PAYTABLE))"
proof -
  let ?out = "\<lparr>ev = Some (fdiv (real_of_int (\<Sum>c\<leftarrow>CATEGORIES. tally s (remaining_of s) c * payout_of c)) (real 48)),
       probs = map (\<lambda>c. (c, Some (fdiv (real_of_int (tally s (remaining_of s) c)) (real 48)))) CATEGORIES,
       counts = map (\<lambda>c. (c, Some (tally s (remaining_of s) c))) CATEGORIES,
       total_n = 48,
       breakdown = map (row_of s) (remaining_of s)\<rparr>"
  have res: "result (computeEV fdiv s) = Some (Outcome ?out)"
    by (simp add: computeEV_valid [OF assms])
  have fc: "map finalCard (map (row_of s) (remaining_of s))
      = filter (\<lambda>c. c \<notin> {cardA s, cardB s, cardC s, board s}) DECK"
    by (simp add: comp_def row_of_def remaining_of_def)
  have rows: "cat r = classify5 [cardA s, cardB s, cardC s, board s, finalCard r]
          \<and> (\<exists>p. payout r = Some p \<and> (cat r, p) \<in> set PAYTABLE)"
    if "r \<in> set (map (row_of s) (remaining_of s))" for r
  proof -
    from that obtain x where r: "r = row_of s x" by auto
    have "map_of PAYTABLE (classify5 (final5_of s x)) = Some (payout_of (classify5 (final5_of s x)))"
      by (rule PAYTABLE_lookup [OF classify5_in])
    then show ?thesis
      by (auto simp add: r row_of_def final5_of_def dest: map_of_SomeD)
  qed
  show ?thesis
  proof (intro exI conjI)
    show "result (computeEV fdiv s) = Some (Outcome ?out)" by (rule res)
    show "length (breakdown ?out) = 48" by (simp add: length_remaining_of [OF assms])
    show "map finalCard (breakdown ?out)
        = filter (\<lambda>c. c \<notin> {cardA s, cardB s, cardC s, board s}) DECK"
      using fc by simp
    show "breakdown ?out = map (row_of s) (remaining_of s)" by simp
    show "\<forall>r\<in>set (breakdown ?out).
            cat r = classify5 [cardA s, cardB s, cardC s, board s, finalCard r]
          \<and> (\<exists>p. payout r = Some p \<and> (cat r, p) \<in> set PAYTABLE)"
    proof
      fix r
      assume "r \<in> set (breakdown ?out)"
      then have "r \<in> set (map (row_of s) (remaining_of s))" by simp
      then show "cat r = classify5 [cardA s, cardB s, cardC s, board s, finalCard r]
          \<and> (\<exists>p. payout r = Some p \<and> (cat r, p) \<in> set PAYTABLE)"
        by (rule rows)
    qed
  qed
qed

theorem computeEV_breakdown_witness:
  "valid_selection \<lparr>cardA = ''Ah'', cardB = ''Kh'', cardC = ''Qh'', board = ''Jh'', result = None\<rparr>
   \<and> (\<exists>out. result (computeEV (/) \<lparr>cardA = ''Ah'', cardB = ''Kh'', cardC = ''Qh'', board = ''Jh'', result = None\<rparr>)
          = Some (Outcome out)
     \<and> length (breakdown out) = 48
     \<and> map finalCard (breakdown out) = filter (\<lambda>c. c \<notin> {''Ah'', ''Kh'', ''Qh'', ''Jh''}) DECK)"
  using computeEV_breakdown [OF valid_s0, of "(/)"] valid_s0 by auto

section \<open>Validation\<close>

text \<open>
  C7. When one of the four selections is absent (the empty string), the result is the
  error that asks to complete the selection; when all four are present and they are not
  pairwise distinct, the result is the error that reports a duplicate card; in both
  cases the result is an error value, not a computed outcome.
\<close>

theorem computeEV_validation:
  "(cardA s = [] \<or> cardB s = [] \<or> cardC s = [] \<or> board s = [] \<longrightarrow>
      result (computeEV fdiv s)
        = Some (Error ''Please select all 3 hole cards and the shown community card.''))
   \<and> (cardA s \<noteq> [] \<and> cardB s \<noteq> [] \<and> cardC s \<noteq> [] \<and> board s \<noteq> []
        \<and> \<not> distinct [cardA s, cardB s, cardC s, board s] \<longrightarrow>
      result (computeEV fdiv s)
        = Some (Error ''Duplicate card detected. Please choose distinct cards.''))
   \<and> (cardA s = [] \<or> cardB s = [] \<or> cardC s = [] \<or> board s = []
        \<or> \<not> distinct [cardA s, cardB s, cardC s, board s] \<longrightarrow>
      (\<exists>msg. result (computeEV fdiv s) = Some (Error msg)))"
proof -
  have dup: "card (set [cardA s, cardB s, cardC s, board s]) < 4"
    if "\<not> distinct [cardA s, cardB s, cardC s, board s]"
    using that card_lt_4 [of "cardA s" "cardB s" "cardC s" "board s"] by blast
  show ?thesis
    unfolding computeEV_def Let_def using dup by (auto simp del: set_simps list.set distinct.simps)
qed

theorem computeEV_validation_witness:
  "result (computeEV (/) \<lparr>cardA = ''Ah'', cardB = [], cardC = ''2c'', board = ''3d'', result = None\<rparr>)
     = Some (Error ''Please select all 3 hole cards and the shown community card.'')
   \<and> result (computeEV (/) \<lparr>cardA = ''Ah'', cardB = ''Ah'', cardC = ''2c'', board = ''3d'', result = None\<rparr>)
     = Some (Error ''Duplicate card detected. Please choose distinct cards.'')"
  using computeEV_validation [of "\<lparr>cardA = ''Ah'', cardB = [], cardC = ''2c'', board = ''3d'', result = None\<rparr>" "(/)"]
    computeEV_validation [of "\<lparr>cardA = ''Ah'', cardB = ''Ah'', cardC = ''2c'', board = ''3d'', result = None\<rparr>" "(/)"]
  by simp

text \<open>
  C10. The completeness check comes first: when a selection is absent and the cards that
  are present contain a duplicate, the error is the incomplete-selection one and not
  the duplicate-card one; and the duplicate-card error is only ever produced when all
  four selections are present.
\<close>

theorem computeEV_precedence:
  "((cardA s = [] \<or> cardB s = [] \<or> cardC s = [] \<or> board s = [])
      \<and> \<not> distinct (filter (\<lambda>c. c \<noteq> []) [cardA s, cardB s, cardC s, board s]) \<longrightarrow>
      result (computeEV fdiv s)
        = Some (Error ''Please select all 3 hole cards and the shown community card.'')
      \<and> result (computeEV fdiv s)
        \<noteq> Some (Error ''Duplicate card detected. Please choose distinct cards.''))
   \<and> (result (computeEV fdiv s)
        = Some (Error ''Duplicate card detected. Please choose distinct cards.'') \<longrightarrow>
      cardA s \<noteq> [] \<and> cardB s \<noteq> [] \<and> cardC s \<noteq> [] \<and> board s \<noteq> [])"
  unfolding computeEV_def Let_def by (simp del: set_simps list.set distinct.simps)

theorem computeEV_precedence_witness:
  "result (computeEV (/) \<lparr>cardA = [], cardB = ''Ah'', cardC = ''Ah'', board = ''3d'', result = None\<rparr>)
     = Some (Error ''Please select all 3 hole cards and the shown community card.'')
   \<and> result (computeEV (/) \<lparr>cardA = [], cardB = ''Ah'', cardC = ''Ah'', board = ''3d'', result = None\<rparr>)
     \<noteq> Some (Error ''Duplicate card detected. Please choose distinct cards.'')
   \<and> result (computeEV (/) \<lparr>cardA = ''Ah'', cardB = ''Ah'', cardC = ''2c'', board = ''3d'', result = None\<rparr>)
     = Some (Error ''Duplicate card detected. Please choose distinct cards.'')"
  using computeEV_precedence [of "\<lparr>cardA = [], cardB = ''Ah'', cardC = ''Ah'', board = ''3d'', result = None\<rparr>" "(/)"]
    duplicate_example
  by simp

section \<open>Determinism\<close>

text \<open>
  C9. The result that \<open>computeEV\<close> stores depends on the four selected cards only
  (not on the result displayed before), so two runs on the same four cards store the
  same result; and running it a second time leaves the state as the first run left it.
  The classifier is a function of its argument alone.
\<close>

theorem computeEV_deterministic:
  "(cardA s = cardA s' \<and> cardB s = cardB s' \<and> cardC s = cardC s' \<and> board s = board s' \<longrightarrow>
      result (computeEV fdiv s) = result (computeEV fdiv s'))
   \<and> computeEV fdiv (computeEV fdiv s) = computeEV fdiv s"
proof
  show "cardA s = cardA s' \<and> cardB s = cardB s' \<and> cardC s = cardC s' \<and> board s = board s' \<longrightarrow>
      result (computeEV fdiv s) = result (computeEV fdiv s')"
    using computeEV_result_cards [of s s' fdiv] by blast
next
  have "result (computeEV fdiv (computeEV fdiv s)) = result (computeEV fdiv s)"
    by (rule computeEV_result_cards) (rule computeEV_keeps_cards)+
  then show "computeEV fdiv (computeEV fdiv s) = computeEV fdiv s"
    by (intro app.equality) (simp_all add: computeEV_keeps_cards)
qed

theorem computeEV_deterministic_witness:
  "result (computeEV (/) \<lparr>cardA = ''Ah'', cardB = ''Kh'', cardC = ''Qh'', board = ''Jh'', result = None\<rparr>)
     = result (computeEV (/) \<lparr>cardA = ''Ah'', cardB = ''Kh'', cardC = ''Qh'', board = ''Jh'',
                 result = Some (Error ''stale'')\<rparr>)"
  using computeEV_deterministic
    [of "\<lparr>cardA = ''Ah'', cardB = ''Kh'', cardC = ''Qh'', board = ''Jh'', result = None\<rparr>"
        "\<lparr>cardA = ''Ah'', cardB = ''Kh'', cardC = ''Qh'', board = ''Jh'', result = Some (Error ''stale'')\<rparr>"
        "(/)"]
  by simp

end
